theory Spec2Isabelle
  imports Complex_Main "HOL-Library.AList"
begin

section \<open>Python strings\<close>

text \<open>
  A Python \<^verbatim>\<open>str\<close> is a sequence of Unicode code points. A text is modelled as a
  \<^typ>\<open>string\<close>, one \<^typ>\<open>char\<close> per code point, which covers the code points
  U+0000 to U+00FF (ASCII and Latin-1): \<open>cp c\<close> is the code point of \<open>c\<close>, and
  \<open>length\<close> is Python's \<^verbatim>\<open>len\<close>. The character classes below are those of CPython's
  Unicode database on that range. No character of the range is title-case, and
  lower-casing maps each character to one character.
\<close>

definition cp :: "char \<Rightarrow> nat" where
  "cp c = of_char c"

definition char_isupper :: "char \<Rightarrow> bool" where
  \<comment> \<open>\<^verbatim>\<open>Py_UNICODE_ISUPPER\<close>: A-Z, and the Latin-1 capitals U+00C0-U+00DE but U+00D7.\<close>
  "char_isupper c =
     ((0x41 \<le> cp c \<and> cp c \<le> 0x5A) \<or> (0xC0 \<le> cp c \<and> cp c \<le> 0xD6) \<or>
      (0xD8 \<le> cp c \<and> cp c \<le> 0xDE))"

definition char_islower :: "char \<Rightarrow> bool" where
  \<comment> \<open>\<^verbatim>\<open>Py_UNICODE_ISLOWER\<close>: a-z, U+00AA, U+00B5, U+00BA, and U+00DF-U+00FF but U+00F7.\<close>
  "char_islower c =
     ((0x61 \<le> cp c \<and> cp c \<le> 0x7A) \<or> cp c = 0xAA \<or> cp c = 0xB5 \<or> cp c = 0xBA \<or>
      (0xDF \<le> cp c \<and> cp c \<le> 0xF6) \<or> (0xF8 \<le> cp c \<and> cp c \<le> 0xFF))"

definition char_isspace :: "char \<Rightarrow> bool" where
  \<comment> \<open>\<^verbatim>\<open>Py_UNICODE_ISSPACE\<close>: U+0009-U+000D, U+001C-U+0020, U+0085 and U+00A0.\<close>
  "char_isspace c =
     ((0x09 \<le> cp c \<and> cp c \<le> 0x0D) \<or> (0x1C \<le> cp c \<and> cp c \<le> 0x20) \<or>
      cp c = 0x85 \<or> cp c = 0xA0)"

definition char_lower :: "char \<Rightarrow> char" where
  \<comment> \<open>The lower-case mapping: every upper-case character of the range moves up by 32.\<close>
  "char_lower c = (if char_isupper c then char_of (cp c + 32) else c)"

definition str_lower :: "string \<Rightarrow> string" where
  \<comment> \<open>\<^verbatim>\<open>s.lower()\<close>\<close>
  "str_lower s = map char_lower s"

fun isupper_loop :: "bool \<Rightarrow> string \<Rightarrow> bool" where
  "isupper_loop cased [] = cased"
| "isupper_loop cased (ch # rest) =
     (if char_islower ch then False
      else if \<not> cased \<and> char_isupper ch then isupper_loop True rest
      else isupper_loop cased rest)"

definition str_isupper :: "string \<Rightarrow> bool" where
  \<comment> \<open>\<^verbatim>\<open>s.isupper()\<close>: CPython scans the string, returns False at the first lower-case
      (or title-case) character, and otherwise returns whether it met an upper-case one.\<close>
  "str_isupper s = isupper_loop False s"

definition str_count :: "string \<Rightarrow> char \<Rightarrow> nat" where
  \<comment> \<open>\<^verbatim>\<open>s.count(c)\<close> for a one-character string \<open>c\<close>\<close>
  "str_count s c = length (filter (\<lambda>x. x = c) s)"

fun startswith :: "string \<Rightarrow> string \<Rightarrow> bool" where
  "startswith s [] = True"
| "startswith [] (p # ps) = False"
| "startswith (c # cs) (p # ps) = (c = p \<and> startswith cs ps)"

fun str_contains :: "string \<Rightarrow> string \<Rightarrow> bool" where
  \<comment> \<open>\<open>str_contains s sub\<close> is \<^verbatim>\<open>sub in s\<close>: \<open>sub\<close> starts at some position of \<open>s\<close>.\<close>
  "str_contains [] sub = (sub = [])"
| "str_contains (c # cs) sub = (startswith (c # cs) sub \<or> str_contains cs sub)"

fun split_loop :: "string \<Rightarrow> string \<Rightarrow> string list" where
  "split_loop word [] = (if word = [] then [] else [word])"
| "split_loop word (c # cs) =
     (if char_isspace c then (if word = [] then split_loop [] cs else word # split_loop [] cs)
      else split_loop (word @ [c]) cs)"

definition str_split :: "string \<Rightarrow> string list" where
  \<comment> \<open>\<^verbatim>\<open>s.split()\<close>: the maximal runs of characters that are not whitespace, in order.\<close>
  "str_split s = split_loop [] s"

section \<open>The classifier\<close>

definition SPAM_INDICATORS :: "string list" where
  "SPAM_INDICATORS =
     [''urgent'', ''winner'', ''prize'', ''reward'', ''claim'', ''selected'',
      ''valued customer'', ''call now'', ''limited time'', ''congratulations'',
      ''account compromised'', ''security alert'']"

record DetectionResult =
  classification :: string
  score :: int

record SpamDetector =
  spam_threshold :: int

definition SpamDetector_init :: "int option \<Rightarrow> SpamDetector" where
  \<comment> \<open>\<^verbatim>\<open>SpamDetector(spam_threshold)\<close>; \<open>None\<close> is the call that leaves the argument out.\<close>
  "SpamDetector_init spam_threshold_arg =
     \<lparr>spam_threshold = (case spam_threshold_arg of None \<Rightarrow> 2 | Some t \<Rightarrow> t)\<rparr>"

definition indicator_matches :: "string \<Rightarrow> string \<Rightarrow> bool" where
  \<comment> \<open>the test \<^verbatim>\<open>indicator.lower() in text.lower()\<close>\<close>
  "indicator_matches text indicator = str_contains (str_lower text) (str_lower indicator)"

definition caps_words :: "string \<Rightarrow> string list" where
  \<comment> \<open>\<^verbatim>\<open>[word for word in text.split() if len(word) > 2 and word.isupper()]\<close>\<close>
  "caps_words text = filter (\<lambda>word. length word > 2 \<and> str_isupper word) (str_split text)"

definition calculate_spam_score :: "SpamDetector \<Rightarrow> string \<Rightarrow> int" where
  "calculate_spam_score self text =
     (let score = 0;
          score = fold (\<lambda>indicator score.
                          if indicator_matches text indicator then score + 1 else score)
                    SPAM_INDICATORS score;
          score = (if str_count text (CHR ''!'') > 2 then score + 1 else score);
          score = (if length (caps_words text) > 2 then score + 1 else score)
      in score)"

definition classify :: "SpamDetector \<Rightarrow> string \<Rightarrow> DetectionResult" where
  "classify self text =
     (let score = calculate_spam_score self text;
          classification = (if score \<ge> spam_threshold self then ''SPAM'' else ''NOT SPAM'')
      in \<lparr>classification = classification, score = score\<rparr>)"

definition fully_upper_case :: "string \<Rightarrow> bool" where
  \<comment> \<open>The specification's "fully upper-case" token, read as the test the shouting
      heuristic applies: the token has an upper-case character and no lower-case one.\<close>
  "fully_upper_case word =
     ((\<exists>c\<in>set word. char_isupper c) \<and> (\<forall>c\<in>set word. \<not> char_islower c))"

definition example_message :: string where
  "example_message =
     ''WINNER!! As a valued network customer you have been selected to receive a '' @
     [CHR 0xA3] @ ''900 prize reward!''"

definition punctuation_trigger :: "string \<Rightarrow> bool" where
  "punctuation_trigger text = (str_count text (CHR ''!'') > 2)"

definition caps_trigger :: "string \<Rightarrow> bool" where
  "caps_trigger text = (length (caps_words text) > 2)"

definition ascii_digit_or_punct :: "char \<Rightarrow> bool" where
  \<comment> \<open>the ASCII digits and punctuation marks: the printable ASCII characters that are
      neither letters nor the space\<close>
  "ascii_digit_or_punct c =
     ((0x21 \<le> cp c \<and> cp c \<le> 0x40) \<or> (0x5B \<le> cp c \<and> cp c \<le> 0x60) \<or>
      (0x7B \<le> cp c \<and> cp c \<le> 0x7E))"

section \<open>The file system\<close>

text \<open>
  The file system below the working directory is a tree of regular files and
  directories. A regular file has its content and its modification time (seconds since
  the epoch); a directory lists its entries by name. A path is the list of the names
  that lead from the working directory to a node, so \<^verbatim>\<open>os.path.join(p, name)\<close> adds
  one name at the end. A call of the operating system either returns, or fails with an
  \<^verbatim>\<open>OSError\<close> and leaves the tree as it was.
\<close>

type_synonym path = "string list"

datatype node = File string real | Dir "(string \<times> node) list"

datatype os_error = FileNotFoundError | FileExistsError | NotADirectoryError | IsADirectoryError

type_synonym 'a io = "node \<Rightarrow> (os_error + 'a) \<times> node"

definition os_path_join :: "path \<Rightarrow> string \<Rightarrow> path" where
  "os_path_join p name = p @ [name]"

fun fs_lookup :: "node \<Rightarrow> path \<Rightarrow> node option" where
  "fs_lookup n [] = Some n"
| "fs_lookup (File c m) (x # xs) = None"
| "fs_lookup (Dir es) (x # xs) =
     (case map_of es x of None \<Rightarrow> None | Some child \<Rightarrow> fs_lookup child xs)"

definition is_dir :: "node \<Rightarrow> path \<Rightarrow> bool" where
  "is_dir fs p = (case fs_lookup fs p of Some (Dir es) \<Rightarrow> True | _ \<Rightarrow> False)"

definition lookup_file :: "node \<Rightarrow> path \<Rightarrow> (string \<times> real) option" where
  "lookup_file fs p = (case fs_lookup fs p of Some (File c m) \<Rightarrow> Some (c, m) | _ \<Rightarrow> None)"

definition read_file :: "node \<Rightarrow> path \<Rightarrow> string option" where
  "read_file fs p = map_option fst (lookup_file fs p)"




text \<open>
  \<^verbatim>\<open>os.makedirs(path, exist_ok=True)\<close>: creates the directory and the missing
  directories on the way to it; a directory that exists already is left as it is, a
  regular file in its place is an error.
\<close>

fun makedirs :: "path \<Rightarrow> node \<Rightarrow> os_error + node" where
  "makedirs [] (Dir es) = Inr (Dir es)"
| "makedirs [] (File c m) = Inl FileExistsError"
| "makedirs (x # xs) (File c m) = Inl NotADirectoryError"
| "makedirs (x # xs) (Dir es) =
     (case makedirs xs (case map_of es x of None \<Rightarrow> Dir [] | Some child \<Rightarrow> child) of
        Inl e \<Rightarrow> Inl e
      | Inr child' \<Rightarrow> Inr (Dir (AList.update x child' es)))"

text \<open>
  \<^verbatim>\<open>with open(path, mode) as f: f.write(...)\<close> at time \<open>t\<close>. The file is created when it
  is absent, in a directory that must exist; its new content is \<open>f old\<close>, where \<open>old\<close>
  is its content so far (empty for a new file): mode \<^verbatim>\<open>"w"\<close> is \<open>f = (\<lambda>old. new)\<close> and
  mode \<^verbatim>\<open>"a"\<close> is \<open>f = (\<lambda>old. old @ new)\<close>.
\<close>

fun open_write :: "path \<Rightarrow> (string \<Rightarrow> string) \<Rightarrow> real \<Rightarrow> node \<Rightarrow> os_error + node" where
  "open_write [] f t n = Inl IsADirectoryError"
| "open_write (x # xs) f t (File c m) = Inl NotADirectoryError"
| "open_write [x] f t (Dir es) =
     (case map_of es x of
        None \<Rightarrow> Inr (Dir (AList.update x (File (f []) t) es))
      | Some (Dir es') \<Rightarrow> Inl IsADirectoryError
      | Some (File c m) \<Rightarrow> Inr (Dir (AList.update x (File (f c) t) es)))"
| "open_write (x # y # ys) f t (Dir es) =
     (case map_of es x of
        None \<Rightarrow> Inl FileNotFoundError
      | Some child \<Rightarrow>
          (case open_write (y # ys) f t child of
             Inl e \<Rightarrow> Inl e
           | Inr child' \<Rightarrow> Inr (Dir (AList.update x child' es))))"


text \<open>
  A procedure maps the tree to an outcome and the tree it leaves. An exception of a
  call propagates: a loop stops at the first error, with the tree as it is then.
\<close>

definition lift_os :: "(node \<Rightarrow> os_error + node) \<Rightarrow> unit io" where
  "lift_os f fs = (case f fs of Inl e \<Rightarrow> (Inl e, fs) | Inr fs' \<Rightarrow> (Inr (), fs'))"

fun for_each :: "'a list \<Rightarrow> ('a \<Rightarrow> unit io) \<Rightarrow> unit io" where
  "for_each [] body fs = (Inr (), fs)"
| "for_each (x # xs) body fs =
     (case body x fs of
        (Inl e, fs') \<Rightarrow> (Inl e, fs')
      | (Inr u, fs') \<Rightarrow> for_each xs body fs')"

section \<open>The clock\<close>

text \<open>
  A reading of \<^verbatim>\<open>datetime.now()\<close>: the calendar fields of the local time and the
  value of \<^verbatim>\<open>timestamp()\<close>, the seconds since the epoch, taken as an exact number.
  \<^verbatim>\<open>strftime\<close> prints the year with four digits and the other fields with two.
\<close>

record datetime =
  year :: nat
  month :: nat
  day :: nat
  hour :: nat
  minute :: nat
  second :: nat
  timestamp :: real

definition digit_char :: "nat \<Rightarrow> char" where
  "digit_char d = char_of (48 + d)"

fun str_nat :: "nat \<Rightarrow> string" where
  "str_nat n = (if n < 10 then [digit_char n] else str_nat (n div 10) @ [digit_char (n mod 10)])"

definition zero_pad :: "nat \<Rightarrow> nat \<Rightarrow> string" where
  \<comment> \<open>the decimal digits of a number, filled with zeros on the left up to a width\<close>
  "zero_pad width n = replicate (width - length (str_nat n)) (CHR ''0'') @ str_nat n"


definition strftime_Y_m_d_H_M_S :: "datetime \<Rightarrow> string" where
  \<comment> \<open>\<^verbatim>\<open>strftime("%Y-%m-%d %H:%M:%S")\<close>\<close>
  "strftime_Y_m_d_H_M_S now =
     zero_pad 4 (year now) @ ''-'' @ zero_pad 2 (month now) @ ''-'' @ zero_pad 2 (day now) @
     '' '' @
     zero_pad 2 (hour now) @ '':'' @ zero_pad 2 (minute now) @ '':'' @ zero_pad 2 (second now)"

section \<open>System operations\<close>

definition required_dirs :: "path list" where
  \<comment> \<open>\<^verbatim>\<open>["data", "data/input", "data/output", "data/logs"]\<close>\<close>
  "required_dirs =
     [[''data''], [''data'', ''input''], [''data'', ''output''], [''data'', ''logs'']]"

definition setup_environment :: "unit io" where
  "setup_environment =
     for_each required_dirs (\<lambda>directory. lift_os (makedirs directory))"


section \<open>File operations\<close>

record FileProcessor =
  base_dir :: path
  input_dir :: path
  output_dir :: path
  logs_dir :: path

definition FileProcessor_init :: "path option \<Rightarrow> FileProcessor" where
  "FileProcessor_init base_dir_arg =
     (let base_dir = (case base_dir_arg of None \<Rightarrow> [''data''] | Some d \<Rightarrow> d)
      in \<lparr>base_dir = base_dir,
          input_dir = os_path_join base_dir ''input'',
          output_dir = os_path_join base_dir ''output'',
          logs_dir = os_path_join base_dir ''logs''\<rparr>)"

definition log_entry :: "string \<Rightarrow> string \<Rightarrow> string \<Rightarrow> string" where
  \<comment> \<open>the three-part f-string of \<open>log_operation\<close>, for a formatted time stamp\<close>
  "log_entry stamp operation details =
     ''['' @ stamp @ ''] '' @ operation @ [CHR 0x0A] @
     ''Details: '' @ details @ [CHR 0x0A] @
     replicate 50 (CHR ''-'') @ [CHR 0x0A]"

definition log_operation :: "FileProcessor \<Rightarrow> datetime \<Rightarrow> string \<Rightarrow> string \<Rightarrow> unit io" where
  \<comment> \<open>\<open>now\<close> is the reading of the clock; \<open>stamp\<close> is the source's \<^verbatim>\<open>timestamp\<close>\<close>
  "log_operation self now operation details =
     (let stamp = strftime_Y_m_d_H_M_S now;
          log_file = os_path_join (logs_dir self) ''system_log.txt''
      in lift_os (open_write log_file (\<lambda>old. old @ log_entry stamp operation details)
                    (timestamp now)))"

section \<open>An example state\<close>

definition example_fs :: node where
  "example_fs =
     Dir [(''data'',
           Dir [(''input'', Dir []),
                (''output'', Dir [(''result_20240101_000000.json'', File ''{}'' 1704067200),
                                  (''result_20240301_120000.json'', File ''{}'' 1709294400)]),
                (''logs'', Dir [(''system_log.txt'', File ''started'' 1700000000)])])]"

definition example_now :: datetime where
  "example_now =
     \<lparr>year = 2024, month = 3, day = 5, hour = 7, minute = 0, second = 59,
      timestamp = 1709622059\<rparr>"

section \<open>Notions used to state the properties of the clean-up\<close>




section \<open>JSON\<close>

















definition prepend :: "char \<Rightarrow> (string \<times> string) option \<Rightarrow> (string \<times> string) option" where
  "prepend c r = (case r of None \<Rightarrow> None | Some (s, rest) \<Rightarrow> Some (c # s, rest))"












section \<open>Notions used to state the properties of the JSON functions\<close>





section \<open>Properties of the string functions\<close>

lemma startswith_iff: "startswith s p \<longleftrightarrow> (\<exists>suf. s = p @ suf)"
  by (induction s p rule: startswith.induct) auto

lemma str_contains_iff: "str_contains s sub \<longleftrightarrow> (\<exists>pre suf. s = pre @ sub @ suf)"
proof (induction s)
  case Nil
  show ?case by auto
next
  case (Cons c cs)
  have "(\<exists>pre suf. c # cs = pre @ sub @ suf) \<longleftrightarrow>
        (\<exists>suf. c # cs = sub @ suf) \<or> (\<exists>pre suf. cs = pre @ sub @ suf)"
  proof
    assume "\<exists>pre suf. c # cs = pre @ sub @ suf"
    then obtain pre suf where eq: "c # cs = pre @ sub @ suf" by blast
    show "(\<exists>suf. c # cs = sub @ suf) \<or> (\<exists>pre suf. cs = pre @ sub @ suf)"
    proof (cases pre)
      case Nil
      with eq show ?thesis by auto
    next
      case (Cons a pre')
      with eq have "cs = pre' @ sub @ suf" by simp
      then show ?thesis by blast
    qed
  next
    assume "(\<exists>suf. c # cs = sub @ suf) \<or> (\<exists>pre suf. cs = pre @ sub @ suf)"
    then show "\<exists>pre suf. c # cs = pre @ sub @ suf"
    proof
      assume "\<exists>suf. c # cs = sub @ suf"
      then obtain suf where "c # cs = [] @ sub @ suf" by auto
      then show ?thesis by blast
    next
      assume "\<exists>pre suf. cs = pre @ sub @ suf"
      then obtain pre suf where "c # cs = (c # pre) @ sub @ suf" by auto
      then show ?thesis by blast
    qed
  qed
  with Cons show ?case by (simp add: startswith_iff)
qed

lemma isupper_loop_iff:
  "isupper_loop cased s \<longleftrightarrow>
     (cased \<or> (\<exists>c\<in>set s. char_isupper c)) \<and> (\<forall>c\<in>set s. \<not> char_islower c)"
  by (induction s arbitrary: cased) auto

lemma str_isupper_iff:
  "str_isupper s \<longleftrightarrow> (\<exists>c\<in>set s. char_isupper c) \<and> (\<forall>c\<in>set s. \<not> char_islower c)"
  by (simp add: str_isupper_def isupper_loop_iff)

text \<open>
  The tokens of \<open>str_split\<close> are the runs between whitespace characters: they are not
  empty and hold no whitespace, a text without whitespace is its only token, and a
  whitespace character separates the tokens before it from the tokens after it.
\<close>

lemma split_loop_tokens:
  "word = [] \<or> (\<forall>c\<in>set word. \<not> char_isspace c) \<Longrightarrow> w \<in> set (split_loop word cs)
     \<Longrightarrow> w \<noteq> [] \<and> (\<forall>c\<in>set w. \<not> char_isspace c)"
proof (induction cs arbitrary: word)
  case Nil
  then show ?case by (auto split: if_splits)
next
  case (Cons a cs)
  show ?case
  proof (cases "char_isspace a")
    case True
    with Cons.prems(2) have "w = word \<and> word \<noteq> [] \<or> w \<in> set (split_loop [] cs)"
      by (auto split: if_splits)
    then show ?thesis
    proof
      assume "w = word \<and> word \<noteq> []"
      with Cons.prems(1) show ?thesis by auto
    next
      assume "w \<in> set (split_loop [] cs)"
      then show ?thesis by (intro Cons.IH [of "[]"]) simp_all
    qed
  next
    case False
    with Cons.prems(2) have "w \<in> set (split_loop (word @ [a]) cs)" by simp
    moreover from False Cons.prems(1) have "\<forall>c\<in>set (word @ [a]). \<not> char_isspace c" by auto
    ultimately show ?thesis by (intro Cons.IH [of "word @ [a]"]) simp_all
  qed
qed

lemma str_split_tokens:
  "w \<in> set (str_split s) \<Longrightarrow> w \<noteq> [] \<and> (\<forall>c\<in>set w. \<not> char_isspace c)"
  unfolding str_split_def by (rule split_loop_tokens [of "[]"]) simp_all

lemma split_loop_no_space:
  "\<forall>c\<in>set cs. \<not> char_isspace c \<Longrightarrow>
     split_loop word cs = (if word @ cs = [] then [] else [word @ cs])"
  by (induction cs arbitrary: word) simp_all

lemma str_split_single: "s \<noteq> [] \<Longrightarrow> \<forall>c\<in>set s. \<not> char_isspace c \<Longrightarrow> str_split s = [s]"
  by (simp add: str_split_def split_loop_no_space)

lemma split_loop_append_space:
  "char_isspace c \<Longrightarrow>
     split_loop word (s @ c # t) = split_loop word s @ split_loop [] t"
  by (induction s arbitrary: word) simp_all

lemma str_split_append_space:
  "char_isspace c \<Longrightarrow> str_split (s @ c # t) = str_split s @ str_split t"
  by (simp add: str_split_def split_loop_append_space)

section \<open>Properties of the classifier\<close>

lemma fold_count:
  "fold (\<lambda>x (n::int). if P x then n + 1 else n) xs k = k + int (length (filter P xs))"
  by (induction xs arbitrary: k) auto

lemma score_sum:
  "calculate_spam_score self text =
     int (length (filter (indicator_matches text) SPAM_INDICATORS)) +
     (if str_count text (CHR ''!'') > 2 then 1 else 0) +
     (if length (caps_words text) > 2 then 1 else 0)"
  by (simp add: calculate_spam_score_def Let_def fold_count)

lemma score_urgent_prize: "calculate_spam_score self ''urgent prize'' = 2"
  by code_simp

text \<open>
  Claim C1. For every text and every integer threshold, \<open>classify\<close> labels the text
  \<open>SPAM\<close> exactly when the computed score is at least the threshold, and \<open>NOT SPAM\<close>
  exactly when it is below; the result carries the computed score. In particular a score
  equal to the threshold gives \<open>SPAM\<close>, a score equal to the threshold minus one gives
  \<open>NOT SPAM\<close>, and a detector built without an argument has threshold 2.
\<close>

theorem classify_threshold:
  "(classification (classify self text) = ''SPAM'')
     = (calculate_spam_score self text \<ge> spam_threshold self) \<and>
   (classification (classify self text) = ''NOT SPAM'')
     = (calculate_spam_score self text < spam_threshold self) \<and>
   score (classify self text) = calculate_spam_score self text \<and>
   (calculate_spam_score self text = spam_threshold self
      \<longrightarrow> classification (classify self text) = ''SPAM'') \<and>
   (calculate_spam_score self text = spam_threshold self - 1
      \<longrightarrow> classification (classify self text) = ''NOT SPAM'') \<and>
   spam_threshold (SpamDetector_init None) = 2 \<and>
   spam_threshold (SpamDetector_init (Some t)) = t"
  by (simp add: classify_def Let_def SpamDetector_init_def)

theorem classify_threshold_witness:
  "calculate_spam_score (SpamDetector_init None) ''urgent prize'' = 2 \<and>
   classification (classify (SpamDetector_init None) ''urgent prize'') = ''SPAM'' \<and>
   calculate_spam_score (SpamDetector_init (Some 3)) ''urgent prize'' = 3 - 1 \<and>
   classification (classify (SpamDetector_init (Some 3)) ''urgent prize'') = ''NOT SPAM''"
proof -
  have t2: "spam_threshold (SpamDetector_init None) = 2"
    and t3: "spam_threshold (SpamDetector_init (Some 3)) = 3"
    by (simp_all add: SpamDetector_init_def)
  show ?thesis
    using classify_threshold [of "SpamDetector_init None" "''urgent prize''"]
      classify_threshold [of "SpamDetector_init (Some 3)" "''urgent prize''"]
    by (simp add: score_urgent_prize t2 t3)
qed

lemma distinct_SPAM_INDICATORS: "distinct SPAM_INDICATORS"
  by (simp add: SPAM_INDICATORS_def)

lemma length_SPAM_INDICATORS: "length SPAM_INDICATORS = 12"
  by (simp add: SPAM_INDICATORS_def)

lemma str_lower_indicator: "i \<in> set SPAM_INDICATORS \<Longrightarrow> str_lower i = i"
  unfolding SPAM_INDICATORS_def by (auto; code_simp)

lemma indicator_matches_iff:
  "i \<in> set SPAM_INDICATORS \<Longrightarrow>
     indicator_matches text i \<longleftrightarrow> (\<exists>pre suf. str_lower text = pre @ i @ suf)"
  by (simp add: indicator_matches_def str_lower_indicator str_contains_iff)

lemma matched_card:
  "int (length (filter (indicator_matches text) SPAM_INDICATORS)) =
     int (card {i \<in> set SPAM_INDICATORS. \<exists>pre suf. str_lower text = pre @ i @ suf})"
proof -
  have "{i \<in> set SPAM_INDICATORS. \<exists>pre suf. str_lower text = pre @ i @ suf} =
        set (filter (indicator_matches text) SPAM_INDICATORS)"
    using indicator_matches_iff by auto
  moreover have "distinct (filter (indicator_matches text) SPAM_INDICATORS)"
    using distinct_SPAM_INDICATORS by simp
  ultimately show ?thesis
    using distinct_card [of "filter (indicator_matches text) SPAM_INDICATORS"] by presburger
qed

lemma str_count_count_list: "str_count s c = count_list s c"
  by (induction s) (auto simp: str_count_def)

lemma caps_words_fully_upper:
  "caps_words text = filter (\<lambda>word. length word > 2 \<and> fully_upper_case word) (str_split text)"
  by (simp add: caps_words_def fully_upper_case_def str_isupper_iff)

text \<open>
  Claim C2. For every text, \<open>calculate_spam_score\<close> returns the sum of: the number of
  indicator phrases of the fixed set that occur as a substring of the lower-cased text
  (each indicator counted once), one if the character \<open>!\<close> occurs more than 2 times in
  the raw text, and one if more than 2 whitespace-separated tokens of length greater
  than 2 are fully upper-case. Hence the score lies between 0 and the number of
  indicators plus 2.
\<close>

theorem calculate_spam_score_sum:
  "calculate_spam_score self text =
     int (card {i \<in> set SPAM_INDICATORS. \<exists>pre suf. str_lower text = pre @ i @ suf}) +
     (if count_list text (CHR ''!'') > 2 then 1 else 0) +
     (if length (filter (\<lambda>word. length word > 2 \<and> fully_upper_case word) (str_split text)) > 2
      then 1 else 0) \<and>
   0 \<le> calculate_spam_score self text \<and>
   calculate_spam_score self text \<le> int (length SPAM_INDICATORS) + 2"
proof -
  have le: "length (filter (indicator_matches text) SPAM_INDICATORS) \<le> length SPAM_INDICATORS"
    by (rule length_filter_le)
  have eq: "calculate_spam_score self text =
     int (card {i \<in> set SPAM_INDICATORS. \<exists>pre suf. str_lower text = pre @ i @ suf}) +
     (if count_list text (CHR ''!'') > 2 then 1 else 0) +
     (if length (filter (\<lambda>word. length word > 2 \<and> fully_upper_case word) (str_split text)) > 2
      then 1 else 0)"
    unfolding score_sum matched_card str_count_count_list caps_words_fully_upper ..
  have "0 \<le> calculate_spam_score self text"
    unfolding score_sum by simp
  moreover have "calculate_spam_score self text \<le> int (length SPAM_INDICATORS) + 2"
  proof -
    have "calculate_spam_score self text
            \<le> int (length (filter (indicator_matches text) SPAM_INDICATORS)) + 2"
      unfolding score_sum by simp
    also have "\<dots> \<le> int (length SPAM_INDICATORS) + 2"
      using le by linarith
    finally show ?thesis .
  qed
  ultimately show ?thesis using eq by blast
qed

theorem calculate_spam_score_sum_witness:
  "calculate_spam_score (SpamDetector_init None) ''HEY YOU THERE, urgent prize!!!'' = 4 \<and>
   card {i \<in> set SPAM_INDICATORS.
           \<exists>pre suf. str_lower ''HEY YOU THERE, urgent prize!!!'' = pre @ i @ suf} = 2"
proof -
  have s: "calculate_spam_score self ''HEY YOU THERE, urgent prize!!!'' = 4" for self
    by code_simp
  have c: "count_list ''HEY YOU THERE, urgent prize!!!'' (CHR ''!'') = 3"
    by code_simp
  have w: "caps_words ''HEY YOU THERE, urgent prize!!!'' = [''HEY'', ''YOU'', ''THERE,'']"
    by code_simp
  show ?thesis
    using calculate_spam_score_sum [of "SpamDetector_init None" "''HEY YOU THERE, urgent prize!!!''"]
    unfolding caps_words_fully_upper [symmetric] s c w
    by simp
qed

lemma score_triggers:
  "calculate_spam_score self text =
     int (length (filter (indicator_matches text) SPAM_INDICATORS)) +
     (if punctuation_trigger text then 1 else 0) + (if caps_trigger text then 1 else 0)"
  by (simp add: score_sum punctuation_trigger_def caps_trigger_def)

text \<open>
  Claim C5. \<open>classify\<close> with the default threshold gives the empty string score 0
  and the label \<open>NOT SPAM\<close>. More generally, a text in which no indicator phrase
  matches (none occurs in the lower-cased text), \<open>!\<close> occurs at most 2 times, and
  at most 2 tokens of length greater than 2 are fully upper-case, has score 0 and the
  label \<open>NOT SPAM\<close>.
\<close>

theorem no_trigger_not_spam:
  "classify (SpamDetector_init None) [] = \<lparr>classification = ''NOT SPAM'', score = 0\<rparr> \<and>
   ((\<forall>i\<in>set SPAM_INDICATORS. \<not> (\<exists>pre suf. str_lower text = pre @ i @ suf)) \<and>
    count_list text (CHR ''!'') \<le> 2 \<and>
    length (filter (\<lambda>word. length word > 2 \<and> fully_upper_case word) (str_split text)) \<le> 2
    \<longrightarrow> classify (SpamDetector_init None) text = \<lparr>classification = ''NOT SPAM'', score = 0\<rparr>)"
proof -
  have general: "classify (SpamDetector_init None) t = \<lparr>classification = ''NOT SPAM'', score = 0\<rparr>"
    if none: "\<forall>i\<in>set SPAM_INDICATORS. \<not> (\<exists>pre suf. str_lower t = pre @ i @ suf)"
      and bang: "count_list t (CHR ''!'') \<le> 2"
      and caps: "length (filter (\<lambda>word. length word > 2 \<and> fully_upper_case word) (str_split t)) \<le> 2"
    for t
  proof -
    have "filter (indicator_matches t) SPAM_INDICATORS = []"
      using none by (simp add: filter_empty_conv indicator_matches_iff)
    moreover have "\<not> str_count t (CHR ''!'') > 2"
      using bang by (simp add: str_count_count_list)
    moreover have "\<not> length (caps_words t) > 2"
      using caps by (simp add: caps_words_fully_upper)
    ultimately have "calculate_spam_score (SpamDetector_init None) t = 0"
      by (simp add: score_sum)
    then show ?thesis
      by (simp add: classify_def SpamDetector_init_def)
  qed
  have "\<forall>i\<in>set SPAM_INDICATORS. \<not> (\<exists>pre suf. str_lower [] = pre @ i @ suf)"
    by (simp add: str_lower_def SPAM_INDICATORS_def)
  then have "classify (SpamDetector_init None) [] = \<lparr>classification = ''NOT SPAM'', score = 0\<rparr>"
    by (intro general) (simp_all add: str_split_def)
  with general show ?thesis by blast
qed

lemma lunch_no_indicator:
  "\<forall>i\<in>set SPAM_INDICATORS. \<not> indicator_matches ''Hey, are we still on for lunch today?'' i"
  unfolding SPAM_INDICATORS_def by code_simp

theorem no_trigger_not_spam_witness:
  "classify (SpamDetector_init None) ''Hey, are we still on for lunch today?''
     = \<lparr>classification = ''NOT SPAM'', score = 0\<rparr>"
proof -
  let ?t = "''Hey, are we still on for lunch today?''"
  have 1: "\<forall>i\<in>set SPAM_INDICATORS. \<not> (\<exists>pre suf. str_lower ?t = pre @ i @ suf)"
    using lunch_no_indicator indicator_matches_iff by blast
  have 2: "count_list ?t (CHR ''!'') \<le> 2"
    by code_simp
  have "caps_words ?t = []"
    by code_simp
  then have 3: "length (filter (\<lambda>word. length word > 2 \<and> fully_upper_case word) (str_split ?t)) \<le> 2"
    by (simp add: caps_words_fully_upper)
  show ?thesis
    using no_trigger_not_spam [of ?t] 1 2 3 by blast
qed

lemma ascii_digit_or_punct_uncased:
  "ascii_digit_or_punct c \<Longrightarrow> \<not> char_isupper c \<and> \<not> char_islower c"
  by (auto simp: ascii_digit_or_punct_def char_isupper_def char_islower_def)

lemma caps_words_WINNER: "caps_words ''WINNER!! 12345 ?!?!?! you WON'' = [''WINNER!!'', ''WON'']"
  by code_simp

lemma WINNER_not_all_upper: "\<not> list_all char_isupper ''WINNER!!''"
  by code_simp

text \<open>
  Claim C10. In the shouting heuristic a token counts exactly when it is longer than 2
  characters, has at least one upper-case character and has no lower-case character.
  So a token without any cased character, such as one made only of digits or
  punctuation, never counts, while a token mixing upper-case letters with digits or
  punctuation, such as \<open>WINNER!!\<close>, does count although not every character of it is
  an upper-case letter.
\<close>

theorem caps_test_needs_cased:
  "(word \<in> set (caps_words text)) =
     (word \<in> set (str_split text) \<and> length word > 2 \<and>
      (\<exists>c\<in>set word. char_isupper c) \<and> (\<forall>c\<in>set word. \<not> char_islower c)) \<and>
   ((\<forall>c\<in>set word. \<not> char_isupper c \<and> \<not> char_islower c)
      \<longrightarrow> word \<notin> set (caps_words text)) \<and>
   ((\<forall>c\<in>set word. ascii_digit_or_punct c) \<longrightarrow> word \<notin> set (caps_words text)) \<and>
   caps_words ''WINNER!! 12345 ?!?!?! you WON'' = [''WINNER!!'', ''WON''] \<and>
   \<not> list_all char_isupper ''WINNER!!''"
proof -
  have iff: "(word \<in> set (caps_words text)) =
     (word \<in> set (str_split text) \<and> length word > 2 \<and>
      (\<exists>c\<in>set word. char_isupper c) \<and> (\<forall>c\<in>set word. \<not> char_islower c))"
    by (auto simp: caps_words_def str_isupper_iff)
  have uncased: "word \<notin> set (caps_words text)"
    if "\<forall>c\<in>set word. \<not> char_isupper c \<and> \<not> char_islower c"
    using that iff by blast
  have digits: "word \<notin> set (caps_words text)" if "\<forall>c\<in>set word. ascii_digit_or_punct c"
    using that uncased ascii_digit_or_punct_uncased by blast
  show ?thesis
    using iff uncased digits caps_words_WINNER WINNER_not_all_upper by blast
qed

theorem caps_test_needs_cased_witness:
  "''12345'' \<in> set (str_split ''WINNER!! 12345 ?!?!?! you WON'') \<and>
   ''12345'' \<notin> set (caps_words ''WINNER!! 12345 ?!?!?! you WON'') \<and>
   ''WINNER!!'' \<in> set (caps_words ''WINNER!! 12345 ?!?!?! you WON'')"
proof -
  have d: "\<forall>c\<in>set ''12345''. ascii_digit_or_punct c"
    by code_simp
  have s: "''12345'' \<in> set (str_split ''WINNER!! 12345 ?!?!?! you WON'')"
    by code_simp
  show ?thesis
    using caps_test_needs_cased [of "''12345''" "''WINNER!! 12345 ?!?!?! you WON''"] d s
    by simp
qed

lemma filter_mono_length:
  "\<forall>x\<in>set xs. P x \<longrightarrow> Q x \<Longrightarrow> length (filter P xs) \<le> length (filter Q xs)"
  by (induction xs) auto

lemma filter_one_more:
  "distinct xs \<Longrightarrow> j \<in> set xs \<Longrightarrow> \<not> P j \<Longrightarrow> Q j \<Longrightarrow> \<forall>x\<in>set xs. x \<noteq> j \<longrightarrow> Q x = P x
     \<Longrightarrow> length (filter Q xs) = Suc (length (filter P xs))"
proof (induction xs)
  case Nil
  then show ?case by simp
next
  case (Cons a xs)
  show ?case
  proof (cases "a = j")
    case True
    with Cons.prems have "j \<notin> set xs" by simp
    with Cons.prems have "\<forall>x\<in>set xs. Q x = P x" by auto
    then have "filter Q xs = filter P xs" by (simp cong: filter_cong)
    with True Cons.prems show ?thesis by simp
  next
    case False
    with Cons.prems have "length (filter Q xs) = Suc (length (filter P xs))"
      by (intro Cons.IH) auto
    moreover from False Cons.prems have "Q a = P a" by auto
    ultimately show ?thesis by simp
  qed
qed

lemma score_mono_general:
  assumes "\<forall>i\<in>set SPAM_INDICATORS. indicator_matches t i \<longrightarrow> indicator_matches t' i"
    and "punctuation_trigger t \<longrightarrow> punctuation_trigger t'"
    and "caps_trigger t \<longrightarrow> caps_trigger t'"
  shows "calculate_spam_score self t \<le> calculate_spam_score self t'"
proof -
  have "length (filter (indicator_matches t) SPAM_INDICATORS)
          \<le> length (filter (indicator_matches t') SPAM_INDICATORS)"
    using assms(1) by (rule filter_mono_length)
  with assms(2,3) show ?thesis
    unfolding score_triggers by auto
qed

text \<open>
  Claim C4. Scoring is monotone: when a text is changed so that one more indicator
  phrase matches, or so that the count of \<open>!\<close> crosses above 2, or so that the count of
  fully upper-case tokens longer than 2 crosses above 2, and every other triggering
  condition stays as it was, the score does not decrease (it grows by exactly one).
\<close>

theorem score_monotone:
  assumes
    "(\<exists>j\<in>set SPAM_INDICATORS. \<not> indicator_matches t j \<and> indicator_matches t' j \<and>
        (\<forall>i\<in>set SPAM_INDICATORS. i \<noteq> j \<longrightarrow> indicator_matches t' i = indicator_matches t i) \<and>
        punctuation_trigger t' = punctuation_trigger t \<and> caps_trigger t' = caps_trigger t) \<or>
     (\<not> punctuation_trigger t \<and> punctuation_trigger t' \<and>
        (\<forall>i\<in>set SPAM_INDICATORS. indicator_matches t' i = indicator_matches t i) \<and>
        caps_trigger t' = caps_trigger t) \<or>
     (\<not> caps_trigger t \<and> caps_trigger t' \<and>
        (\<forall>i\<in>set SPAM_INDICATORS. indicator_matches t' i = indicator_matches t i) \<and>
        punctuation_trigger t' = punctuation_trigger t)"
  shows "calculate_spam_score self t \<le> calculate_spam_score self t' \<and>
         calculate_spam_score self t' = calculate_spam_score self t + 1"
proof -
  have same: "filter (indicator_matches t') SPAM_INDICATORS = filter (indicator_matches t) SPAM_INDICATORS"
    if "\<forall>i\<in>set SPAM_INDICATORS. indicator_matches t' i = indicator_matches t i"
    using that by (simp cong: filter_cong)
  from assms consider
    (indicator) j where "j \<in> set SPAM_INDICATORS" "\<not> indicator_matches t j" "indicator_matches t' j"
      "\<forall>i\<in>set SPAM_INDICATORS. i \<noteq> j \<longrightarrow> indicator_matches t' i = indicator_matches t i"
      "punctuation_trigger t' = punctuation_trigger t" "caps_trigger t' = caps_trigger t"
    | (punct) "\<not> punctuation_trigger t" "punctuation_trigger t'"
      "\<forall>i\<in>set SPAM_INDICATORS. indicator_matches t' i = indicator_matches t i"
      "caps_trigger t' = caps_trigger t"
    | (caps) "\<not> caps_trigger t" "caps_trigger t'"
      "\<forall>i\<in>set SPAM_INDICATORS. indicator_matches t' i = indicator_matches t i"
      "punctuation_trigger t' = punctuation_trigger t"
    by blast
  then have "calculate_spam_score self t' = calculate_spam_score self t + 1"
  proof cases
    case indicator
    have "length (filter (indicator_matches t') SPAM_INDICATORS)
            = Suc (length (filter (indicator_matches t) SPAM_INDICATORS))"
      using distinct_SPAM_INDICATORS indicator(1-4) by (rule filter_one_more)
    with indicator(5,6) show ?thesis
      unfolding score_triggers by simp
  next
    case punct
    with same show ?thesis
      unfolding score_triggers by simp
  next
    case caps
    with same show ?thesis
      unfolding score_triggers by simp
  qed
  then show ?thesis by simp
qed

lemma hello_conditions:
  "\<forall>i\<in>set SPAM_INDICATORS. \<not> indicator_matches ''hello'' i"
  "\<forall>i\<in>set SPAM_INDICATORS. indicator_matches ''hello winner'' i = (i = ''winner'')"
  "\<not> punctuation_trigger ''hello''" "\<not> punctuation_trigger ''hello winner''"
  "\<not> caps_trigger ''hello''" "\<not> caps_trigger ''hello winner''"
  unfolding SPAM_INDICATORS_def by code_simp+

theorem score_monotone_witness:
  "calculate_spam_score (SpamDetector_init None) ''hello''
     \<le> calculate_spam_score (SpamDetector_init None) ''hello winner'' \<and>
   calculate_spam_score (SpamDetector_init None) ''hello winner''
     = calculate_spam_score (SpamDetector_init None) ''hello'' + 1"
proof -
  have w: "''winner'' \<in> set SPAM_INDICATORS"
    by (simp add: SPAM_INDICATORS_def)
  have "\<exists>j\<in>set SPAM_INDICATORS. \<not> indicator_matches ''hello'' j \<and> indicator_matches ''hello winner'' j \<and>
        (\<forall>i\<in>set SPAM_INDICATORS. i \<noteq> j \<longrightarrow> indicator_matches ''hello winner'' i = indicator_matches ''hello'' i) \<and>
        punctuation_trigger ''hello winner'' = punctuation_trigger ''hello'' \<and>
        caps_trigger ''hello winner'' = caps_trigger ''hello''"
    using w hello_conditions by (intro bexI [of _ "''winner''"]) auto
  then show ?thesis
    using score_monotone [of "''hello''" "''hello winner''" "SpamDetector_init None"] by blast
qed

lemma filter_matches_lowered:
  "filter (indicator_matches t) SPAM_INDICATORS
     = filter (str_contains (str_lower t)) SPAM_INDICATORS"
  by (rule filter_cong) (simp_all add: indicator_matches_def str_lower_indicator)

lemma example_message_lower:
  "str_lower example_message =
     ''winner!! as a valued network customer you have been selected to receive a '' @
     [CHR 0xA3] @ ''900 prize reward!''"
  by code_simp

lemma example_message_matches:
  "filter (indicator_matches example_message) SPAM_INDICATORS
     = [''winner'', ''prize'', ''reward'', ''selected'']"
proof -
  have "filter (indicator_matches example_message) SPAM_INDICATORS
          = filter (str_contains (str_lower example_message)) SPAM_INDICATORS"
    by (rule filter_matches_lowered)
  also have "\<dots> = [''winner'', ''prize'', ''reward'', ''selected'']"
    unfolding example_message_lower SPAM_INDICATORS_def by simp
  finally show ?thesis .
qed

lemma example_message_valued_customer:
  "\<not> indicator_matches example_message ''valued customer''"
proof -
  have "str_lower ''valued customer'' = ''valued customer''"
    by (simp add: str_lower_indicator SPAM_INDICATORS_def)
  then show ?thesis
    unfolding indicator_matches_def example_message_lower by simp
qed

lemma example_message_bangs: "str_count example_message (CHR ''!'') = 3"
  by code_simp

lemma example_message_caps: "caps_words example_message = [''WINNER!!'']"
  by code_simp

text \<open>
  Claim C3, as stated, fails: the example message does not match the indicator
  \<open>valued customer\<close>, since the message reads "valued network customer" and matching is
  literal substring containment.
\<close>

theorem example_message_counterexample:
  "\<not> (indicator_matches example_message ''winner'' \<and>
      indicator_matches example_message ''valued customer'' \<and>
      indicator_matches example_message ''selected'' \<and>
      indicator_matches example_message ''prize'' \<and>
      indicator_matches example_message ''reward'' \<and>
      score (classify (SpamDetector_init (Some 2)) example_message) \<ge> 5 \<and>
      classification (classify (SpamDetector_init (Some 2)) example_message) = ''SPAM'')"
  using example_message_valued_customer by blast

text \<open>
  Claim C3, amended. \<open>classify\<close> applied to the example message with threshold 2
  matches exactly the four indicator phrases \<open>winner\<close>, \<open>prize\<close>, \<open>reward\<close> and
  \<open>selected\<close> (not \<open>valued customer\<close>); the message has three \<open>!\<close>, which adds one
  point, and a single fully upper-case token; the score is 5 and the label \<open>SPAM\<close>.
\<close>

theorem example_message_classified:
  "filter (indicator_matches example_message) SPAM_INDICATORS
     = [''winner'', ''prize'', ''reward'', ''selected''] \<and>
   \<not> indicator_matches example_message ''valued customer'' \<and>
   str_count example_message (CHR ''!'') = 3 \<and>
   caps_words example_message = [''WINNER!!''] \<and>
   classify (SpamDetector_init (Some 2)) example_message
     = \<lparr>classification = ''SPAM'', score = 5\<rparr>"
proof -
  have "calculate_spam_score (SpamDetector_init (Some 2)) example_message = 5"
    unfolding score_sum example_message_matches example_message_bangs example_message_caps
    by simp
  then have "classify (SpamDetector_init (Some 2)) example_message
     = \<lparr>classification = ''SPAM'', score = 5\<rparr>"
    by (simp add: classify_def SpamDetector_init_def)
  then show ?thesis
    using example_message_matches example_message_valued_customer example_message_bangs
      example_message_caps by blast
qed

section \<open>Properties of the file system\<close>

lemma lookup_file_Nil: "lookup_file n [] = (case n of File c m \<Rightarrow> Some (c, m) | Dir es \<Rightarrow> None)"
  by (simp add: lookup_file_def)

lemma lookup_file_Cons:
  "lookup_file (Dir es) (x # xs) =
     (case map_of es x of None \<Rightarrow> None | Some child \<Rightarrow> lookup_file child xs)"
  by (simp add: lookup_file_def split: option.splits)

lemma lookup_file_File_Cons: "lookup_file (File c m) (x # xs) = None"
  by (simp add: lookup_file_def)

lemma is_dir_Nil: "is_dir n [] = (case n of File c m \<Rightarrow> False | Dir es \<Rightarrow> True)"
  by (simp add: is_dir_def split: node.splits)

lemma is_dir_Cons:
  "is_dir (Dir es) (x # xs) =
     (case map_of es x of None \<Rightarrow> False | Some child \<Rightarrow> is_dir child xs)"
  by (simp add: is_dir_def split: option.splits)

lemma is_dir_File_Cons: "is_dir (File c m) (x # xs) = False"
  by (simp add: is_dir_def)

lemmas observe = lookup_file_Nil lookup_file_Cons lookup_file_File_Cons
  is_dir_Nil is_dir_Cons is_dir_File_Cons


subsection \<open>Creating directories\<close>

lemma makedirs_existing: "is_dir fs p \<Longrightarrow> makedirs p fs = Inr fs"
proof (induction p fs rule: makedirs.induct)
  case (1 es)
  show ?case by simp
next
  case (2 c m)
  then show ?case by (simp add: observe)
next
  case (3 x xs c m)
  then show ?case by (simp add: observe)
next
  case (4 x xs es)
  from "4.prems" obtain child where child: "map_of es x = Some child" and "is_dir child xs"
    by (auto simp: observe split: option.splits)
  with "4.IH" have "makedirs xs child = Inr child" by simp
  with child show ?case by (simp add: update_triv)
qed

lemma makedirs_is_dir:
  "makedirs p fs = Inr fs' \<Longrightarrow> is_dir fs' p \<and> (\<forall>q. is_dir fs q \<longrightarrow> is_dir fs' q)"
proof (induction p fs arbitrary: fs' rule: makedirs.induct)
  case (1 es)
  then show ?case by (auto simp: observe)
next
  case (2 c m)
  then show ?case by simp
next
  case (3 x xs c m)
  then show ?case by simp
next
  case (4 x xs es)
  let ?child = "case map_of es x of None \<Rightarrow> Dir [] | Some child \<Rightarrow> child"
  from "4.prems" obtain child' where mk: "makedirs xs ?child = Inr child'"
    and fs': "fs' = Dir (AList.update x child' es)"
    by (auto split: sum.splits)
  from "4.IH" [OF mk] have here: "is_dir child' xs"
    and keep: "\<And>q. is_dir ?child q \<Longrightarrow> is_dir child' q"
    by blast+
  have "is_dir fs' (x # xs)"
    using here by (simp add: fs' observe update_conv')
  moreover have "is_dir fs' q" if q: "is_dir (Dir es) q" for q
  proof (cases q)
    case Nil
    then show ?thesis by (simp add: fs' observe)
  next
    case (Cons y ys)
    show ?thesis
    proof (cases "y = x")
      case True
      with q Cons have "is_dir ?child ys"
        by (auto simp: observe split: option.splits)
      then have "is_dir child' ys" by (rule keep)
      with True Cons show ?thesis by (simp add: fs' observe update_conv')
    next
      case False
      with q Cons show ?thesis by (simp add: fs' observe update_conv')
    qed
  qed
  ultimately show ?case by blast
qed

lemma for_each_Cons_ok:
  "for_each (x # xs) body fs = (Inr (), fs') \<Longrightarrow>
     \<exists>fs1. body x fs = (Inr (), fs1) \<and> for_each xs body fs1 = (Inr (), fs')"
  by (auto split: prod.splits sum.splits)

lemma lift_os_ok: "lift_os f fs = (Inr (), fs1) \<longleftrightarrow> f fs = Inr fs1"
  by (auto simp: lift_os_def split: sum.splits)

lemma for_each_makedirs_existing:
  "\<forall>d\<in>set ds. is_dir fs d \<Longrightarrow> for_each ds (\<lambda>directory. lift_os (makedirs directory)) fs = (Inr (), fs)"
  by (induction ds) (simp_all add: lift_os_def makedirs_existing)

lemma for_each_makedirs_is_dir:
  "for_each ds (\<lambda>directory. lift_os (makedirs directory)) fs = (Inr (), fs')
     \<Longrightarrow> (\<forall>d\<in>set ds. is_dir fs' d) \<and> (\<forall>q. is_dir fs q \<longrightarrow> is_dir fs' q)"
proof (induction ds arbitrary: fs)
  case Nil
  then show ?case by simp
next
  case (Cons d ds)
  from for_each_Cons_ok [OF Cons.prems] obtain fs1 where mk: "makedirs d fs = Inr fs1"
    and rest: "for_each ds (\<lambda>directory. lift_os (makedirs directory)) fs1 = (Inr (), fs')"
    by (auto simp: lift_os_ok)
  from makedirs_is_dir [OF mk] have d: "is_dir fs1 d" and keep1: "\<And>q. is_dir fs q \<Longrightarrow> is_dir fs1 q"
    by blast+
  from Cons.IH [OF rest] have ds: "\<forall>d\<in>set ds. is_dir fs' d"
    and keep2: "\<And>q. is_dir fs1 q \<Longrightarrow> is_dir fs' q"
    by blast+
  from d keep1 keep2 ds show ?case by auto
qed


subsection \<open>Writing files\<close>

lemma open_write_effect:
  "open_write p f t fs = Inr fs' \<Longrightarrow>
     lookup_file fs' p = Some (f (case lookup_file fs p of None \<Rightarrow> [] | Some (c, m) \<Rightarrow> c), t) \<and>
     (\<forall>q. q \<noteq> p \<longrightarrow> lookup_file fs' q = lookup_file fs q) \<and>
     (\<forall>q. is_dir fs' q = is_dir fs q)"
proof (induction p f t fs arbitrary: fs' rule: open_write.induct)
  case (1 f t n)
  then show ?case by simp
next
  case (2 x xs f t c m)
  then show ?case by simp
next
  case (3 x f t es)
  let ?old = "case map_of es x of Some (File c m) \<Rightarrow> c | _ \<Rightarrow> []"
  from "3.prems" have fs': "fs' = Dir (AList.update x (File (f ?old) t) es)"
    and nodir: "\<forall>es'. map_of es x \<noteq> Some (Dir es')"
    by (auto split: option.splits node.splits)
  have "lookup_file fs' [x] = Some (f (case lookup_file (Dir es) [x] of None \<Rightarrow> [] | Some (c, m) \<Rightarrow> c), t)"
    by (simp add: fs' observe update_conv' split: option.splits node.splits)
  moreover have "lookup_file fs' q = lookup_file (Dir es) q" if "q \<noteq> [x]" for q
  proof (cases q)
    case Nil
    then show ?thesis by (simp add: fs' observe)
  next
    case (Cons y ys)
    show ?thesis
    proof (cases "y = x")
      case True
      with that Cons obtain z zs where "ys = z # zs" by (cases ys) auto
      with True Cons nodir show ?thesis
        by (cases "map_of es x"; cases "the (map_of es x)")
           (simp_all add: fs' observe update_conv')
    next
      case False
      with Cons show ?thesis by (simp add: fs' observe update_conv')
    qed
  qed
  moreover have "is_dir fs' q = is_dir (Dir es) q" for q
  proof (cases q)
    case Nil
    then show ?thesis by (simp add: fs' observe)
  next
    case (Cons y ys)
    show ?thesis
    proof (cases "y = x")
      case True
      with Cons nodir show ?thesis
        by (cases "map_of es x"; cases "the (map_of es x)"; cases ys)
           (simp_all add: fs' observe update_conv')
    next
      case False
      with Cons show ?thesis by (simp add: fs' observe update_conv')
    qed
  qed
  ultimately show ?case by blast
next
  case (4 x y ys f t es)
  from "4.prems" obtain child child' where child: "map_of es x = Some child"
    and w: "open_write (y # ys) f t child = Inr child'"
    and fs': "fs' = Dir (AList.update x child' es)"
    by (auto split: option.splits sum.splits)
  from "4.IH" [OF child w]
  have here: "lookup_file child' (y # ys)
      = Some (f (case lookup_file child (y # ys) of None \<Rightarrow> [] | Some (c, m) \<Rightarrow> c), t)"
    and others: "\<And>q. q \<noteq> y # ys \<Longrightarrow> lookup_file child' q = lookup_file child q"
    and dirs: "\<And>q. is_dir child' q = is_dir child q"
    by blast+
  have "lookup_file fs' (x # y # ys)
      = Some (f (case lookup_file (Dir es) (x # y # ys) of None \<Rightarrow> [] | Some (c, m) \<Rightarrow> c), t)"
    using here child by (simp add: fs' observe update_conv')
  moreover have "lookup_file fs' q = lookup_file (Dir es) q" if "q \<noteq> x # y # ys" for q
  proof (cases q)
    case Nil
    then show ?thesis by (simp add: fs' observe)
  next
    case (Cons z zs)
    with that child others [of zs] show ?thesis
      by (cases "z = x") (simp_all add: fs' observe update_conv')
  qed
  moreover have "is_dir fs' q = is_dir (Dir es) q" for q
  proof (cases q)
    case Nil
    then show ?thesis by (simp add: fs' observe)
  next
    case (Cons z zs)
    with child dirs [of zs] show ?thesis
      by (cases "z = x") (simp_all add: fs' observe update_conv')
  qed
  ultimately show ?case by blast
qed

lemma open_write_succeeds:
  "is_dir fs p \<Longrightarrow> \<not> is_dir fs (os_path_join p name)
     \<Longrightarrow> \<exists>fs'. open_write (os_path_join p name) f t fs = Inr fs'"
proof (induction p arbitrary: fs)
  case Nil
  then obtain es where "fs = Dir es" by (cases fs) (auto simp: observe)
  with Nil show ?case
    by (cases "map_of es name"; cases "the (map_of es name)")
       (auto simp: os_path_join_def observe)
next
  case (Cons x p)
  from Cons.prems(1) obtain es child where fs: "fs = Dir es" and child: "map_of es x = Some child"
    and "is_dir child p"
    by (cases fs) (auto simp: observe split: option.splits)
  moreover from Cons.prems(2) fs child have "\<not> is_dir child (os_path_join p name)"
    by (simp add: os_path_join_def observe)
  ultimately obtain child' where "open_write (os_path_join p name) f t child = Inr child'"
    using Cons.IH by blast
  with fs child show ?case
    by (cases "os_path_join p name") (simp_all add: os_path_join_def)
qed

text \<open>
  Claim C8. \<open>setup_environment\<close> is idempotent: called in a state in which the four
  required directories exist, it raises no error and leaves the file system as it is;
  so a second call after a call that returned changes nothing.
\<close>

theorem setup_environment_idempotent:
  "((\<forall>d\<in>set required_dirs. is_dir fs d) \<longrightarrow> setup_environment fs = (Inr (), fs)) \<and>
   (setup_environment fs = (Inr (), fs') \<longrightarrow>
      (\<forall>d\<in>set required_dirs. is_dir fs' d) \<and> setup_environment fs' = (Inr (), fs'))"
proof -
  have first: "setup_environment fs = (Inr (), fs)" if "\<forall>d\<in>set required_dirs. is_dir fs d" for fs
    unfolding setup_environment_def using that by (rule for_each_makedirs_existing)
  have "(\<forall>d\<in>set required_dirs. is_dir fs' d) \<and> setup_environment fs' = (Inr (), fs')"
    if "setup_environment fs = (Inr (), fs')"
  proof -
    from that have "\<forall>d\<in>set required_dirs. is_dir fs' d"
      unfolding setup_environment_def by (blast dest: for_each_makedirs_is_dir)
    with first show ?thesis by blast
  qed
  with first show ?thesis by blast
qed

theorem setup_environment_idempotent_witness:
  "setup_environment (Dir []) =
     (Inr (), Dir [(''data'', Dir [(''input'', Dir []), (''output'', Dir []), (''logs'', Dir [])])]) \<and>
   setup_environment
     (Dir [(''data'', Dir [(''input'', Dir []), (''output'', Dir []), (''logs'', Dir [])])]) =
     (Inr (), Dir [(''data'', Dir [(''input'', Dir []), (''output'', Dir []), (''logs'', Dir [])])])"
proof -
  have run: "setup_environment (Dir []) =
     (Inr (), Dir [(''data'', Dir [(''input'', Dir []), (''output'', Dir []), (''logs'', Dir [])])])"
    by (simp add: setup_environment_def required_dirs_def lift_os_def)
  with setup_environment_idempotent [of "Dir []"] show ?thesis
    by blast
qed

text \<open>
  Claim C9. \<open>log_operation\<close> only appends. Whatever the call does, the content the
  shared log file had before is still the beginning of its content afterwards, and no
  other file or directory changes. When the call returns, the log file holds its prior
  content followed by exactly one entry: the line with the bracketed time stamp and the
  operation, the line with the details, and the line of 50 dashes. The call returns
  whenever the log directory exists (and the log file is not a directory).
\<close>

theorem log_operation_appends:
  "(log_operation self now operation details fs = (result, fs') \<longrightarrow>
      (\<forall>old. read_file fs (os_path_join (logs_dir self) ''system_log.txt'') = Some old \<longrightarrow>
         (\<exists>added. read_file fs' (os_path_join (logs_dir self) ''system_log.txt'')
                     = Some (old @ added))) \<and>
      (\<forall>q. q \<noteq> os_path_join (logs_dir self) ''system_log.txt'' \<longrightarrow>
         lookup_file fs' q = lookup_file fs q) \<and>
      (\<forall>q. is_dir fs' q = is_dir fs q)) \<and>
   (log_operation self now operation details fs = (Inr (), fs') \<longrightarrow>
      read_file fs' (os_path_join (logs_dir self) ''system_log.txt'') =
        Some ((case read_file fs (os_path_join (logs_dir self) ''system_log.txt'') of
                 None \<Rightarrow> [] | Some old \<Rightarrow> old) @
              ''['' @ strftime_Y_m_d_H_M_S now @ ''] '' @ operation @ [CHR 0x0A] @
              ''Details: '' @ details @ [CHR 0x0A] @
              replicate 50 (CHR ''-'') @ [CHR 0x0A])) \<and>
   (is_dir fs (logs_dir self) \<and> \<not> is_dir fs (os_path_join (logs_dir self) ''system_log.txt'')
      \<longrightarrow> (\<exists>fs1. log_operation self now operation details fs = (Inr (), fs1)))"
proof -
  let ?log_file = "os_path_join (logs_dir self) ''system_log.txt''"
  let ?entry = "log_entry (strftime_Y_m_d_H_M_S now) operation details"
  let ?append = "open_write ?log_file (\<lambda>old. old @ ?entry) (timestamp now)"
  have run: "log_operation self now operation details fs = lift_os ?append fs"
    by (simp add: log_operation_def Let_def)
  have ok: "read_file fs1 ?log_file =
              Some ((case read_file fs ?log_file of None \<Rightarrow> [] | Some old \<Rightarrow> old) @ ?entry) \<and>
            (\<forall>q. q \<noteq> ?log_file \<longrightarrow> lookup_file fs1 q = lookup_file fs q) \<and>
            (\<forall>q. is_dir fs1 q = is_dir fs q)"
    if "log_operation self now operation details fs = (Inr (), fs1)" for fs1
  proof -
    from that have "?append fs = Inr fs1"
      by (simp add: run lift_os_ok)
    from open_write_effect [OF this] show ?thesis
      by (auto simp: read_file_def split: option.splits)
  qed
  have failed: "fs1 = fs" if "log_operation self now operation details fs = (Inl e, fs1)" for e fs1
    using that by (auto simp: run lift_os_def split: sum.splits)
  have frame: "(\<forall>old. read_file fs ?log_file = Some old \<longrightarrow>
         (\<exists>added. read_file fs' ?log_file = Some (old @ added))) \<and>
      (\<forall>q. q \<noteq> ?log_file \<longrightarrow> lookup_file fs' q = lookup_file fs q) \<and>
      (\<forall>q. is_dir fs' q = is_dir fs q)"
    if r: "log_operation self now operation details fs = (result, fs')"
  proof (cases result)
    case (Inl e)
    with r failed have "fs' = fs" by blast
    then show ?thesis by simp
  next
    case (Inr u)
    with r ok [of fs'] show ?thesis by auto
  qed
  have format: "read_file fs' ?log_file =
        Some ((case read_file fs ?log_file of None \<Rightarrow> [] | Some old \<Rightarrow> old) @
              ''['' @ strftime_Y_m_d_H_M_S now @ ''] '' @ operation @ [CHR 0x0A] @
              ''Details: '' @ details @ [CHR 0x0A] @
              replicate 50 (CHR ''-'') @ [CHR 0x0A])"
    if "log_operation self now operation details fs = (Inr (), fs')"
    using ok [OF that] by (simp add: log_entry_def)
  have returns: "\<exists>fs1. log_operation self now operation details fs = (Inr (), fs1)"
    if "is_dir fs (logs_dir self)" "\<not> is_dir fs ?log_file"
  proof -
    from open_write_succeeds [OF that] obtain fs1 where "?append fs = Inr fs1"
      by blast
    then show ?thesis by (auto simp: run lift_os_ok)
  qed
  from frame format returns show ?thesis by blast
qed

lemma example_stamp: "strftime_Y_m_d_H_M_S example_now = ''2024-03-05 07:00:59''"
  by code_simp

theorem log_operation_appends_witness:
  "\<exists>fs'. log_operation (FileProcessor_init None) example_now ''Start'' ''none'' example_fs
           = (Inr (), fs') \<and>
         read_file fs' [''data'', ''logs'', ''system_log.txt''] =
           Some (''started[2024-03-05 07:00:59] Start'' @ [CHR 0x0A] @ ''Details: none'' @
                 [CHR 0x0A] @ replicate 50 (CHR ''-'') @ [CHR 0x0A]) \<and>
         lookup_file fs' [''data'', ''output'', ''result_20240101_000000.json'']
           = Some (''{}'', 1704067200)"
proof -
  have logs: "logs_dir (FileProcessor_init None) = [''data'', ''logs'']"
    by (simp add: FileProcessor_init_def os_path_join_def)
  have d: "is_dir example_fs [''data'', ''logs'']"
    and f: "\<not> is_dir example_fs [''data'', ''logs'', ''system_log.txt'']"
    and old: "read_file example_fs [''data'', ''logs'', ''system_log.txt''] = Some ''started''"
    and other: "lookup_file example_fs [''data'', ''output'', ''result_20240101_000000.json'']
           = Some (''{}'', 1704067200)"
    by (simp_all add: example_fs_def read_file_def observe)
  note appends = log_operation_appends [of "FileProcessor_init None" example_now "''Start''"
      "''none''" example_fs, unfolded logs os_path_join_def append.simps]
  from appends [of "Inr ()" example_fs, THEN conjunct2, THEN conjunct2] d f
  obtain fs1 where run: "log_operation (FileProcessor_init None) example_now ''Start'' ''none''
      example_fs = (Inr (), fs1)"
    by blast
  have "read_file fs1 [''data'', ''logs'', ''system_log.txt''] =
          Some (''started[2024-03-05 07:00:59] Start'' @ [CHR 0x0A] @ ''Details: none'' @
                 [CHR 0x0A] @ replicate 50 (CHR ''-'') @ [CHR 0x0A])"
    using appends [of "Inr ()" fs1, THEN conjunct2, THEN conjunct1, THEN mp, OF run]
    by (simp add: old example_stamp)
  moreover have "lookup_file fs1 [''data'', ''output'', ''result_20240101_000000.json'']
           = Some (''{}'', 1704067200)"
    using appends [of "Inr ()" fs1, THEN conjunct1, THEN mp, OF run, THEN conjunct2,
        THEN conjunct1, THEN spec, of "[''data'', ''output'', ''result_20240101_000000.json'']"]
    by (simp add: other)
  ultimately show ?thesis
    using run by (intro exI [of _ fs1]) simp
qed

subsection \<open>Removing files\<close>


subsection \<open>The loops of the clean-up\<close>







subsection \<open>The files that the walk visits\<close>













section \<open>Properties of the JSON functions\<close>


lemma prepend_length:
  "prepend c r = Some (x, rest) \<Longrightarrow> \<exists>y. r = Some (y, rest)"
  by (auto simp: prepend_def split: option.splits)








subsection \<open>Reading back an encoded string\<close>










subsection \<open>Reading back a printed integer\<close>

declare str_nat.simps [simp del]












subsection \<open>Reading back a printed dictionary\<close>















section \<open>Properties of the result store\<close>






end
